theory Spec2Isabelle
  imports Complex_Main "HOL-Library.Multiset"
begin

section \<open>Data model\<close>

text \<open>
  The module \<^verbatim>\<open>vtoolbox/mdof.py\<close> works on numpy arrays of floating-point numbers.
  A one-dimensional array is a list, a two-dimensional array is the list of its rows.
  Floating-point numbers are idealised as the reals (and the complex numbers built from
  them): rounding is not modelled, comparisons are exact.  Every exception the Python
  code can raise is a value of the type \<open>error\<close>.
\<close>

datatype error = LinAlgError | ValueError | IndexError

type_synonym 'a matrix = "'a list list"

text \<open>
  The dense linear algebra routines of \<^verbatim>\<open>scipy.linalg\<close> (imported as \<^verbatim>\<open>la\<close>) are
  not part of the repository.  They are a parameter of the model: a record holding one
  function for each routine the module calls.
\<close>

record linalg =
  la_eig :: "complex matrix \<Rightarrow> complex matrix option \<Rightarrow> error + (complex list \<times> complex matrix)"
  la_cholesky :: "complex matrix \<Rightarrow> error + complex matrix"
  la_inv :: "complex matrix \<Rightarrow> error + complex matrix"
  la_pinv :: "real matrix \<Rightarrow> error + real matrix"
  la_expm :: "real matrix \<Rightarrow> error + real matrix"

section \<open>Array operations of numpy used by the module\<close>

text \<open>\<^verbatim>\<open>x.argsort()\<close>: the indices that sort \<open>x\<close> in ascending order.  The order numpy
  gives to equal keys is not specified; the model takes the stable one.\<close>

definition argsort :: "real list \<Rightarrow> nat list" where
  "argsort ks = sort_key (\<lambda>i. ks ! i) [0..<length ks]"

text \<open>\<^verbatim>\<open>a[k:]\<close>: a negative start counts from the end, and the start is clamped to the
  array.\<close>

definition slice_from :: "int \<Rightarrow> 'a list \<Rightarrow> 'a list" where
  "slice_from k a =
     (let n = int (length a);
          s = (if k < 0 then max (k + n) 0 else min k n)
      in drop (nat s) a)"

text \<open>\<^verbatim>\<open>a[k::-1]\<close>: from index \<open>k\<close> down to index 0.  A negative start counts from the end
  (so \<open>-1\<close> is the last element), and the start is clamped to the array.\<close>

definition slice_down_from :: "int \<Rightarrow> 'a list \<Rightarrow> 'a list" where
  "slice_down_from k a =
     (let n = int (length a);
          s = (if k < 0 then max (k + n) (- 1) else min k (n - 1))
      in rev (take (nat (s + 1)) a))"

text \<open>\<^verbatim>\<open>x[idx]\<close> with an index array: IndexError when an index is out of bounds.\<close>

definition take_idx :: "'a list \<Rightarrow> nat list \<Rightarrow> error + 'a list" where
  "take_idx xs idx =
     (if list_all (\<lambda>i. i < length xs) idx then Inr (map (\<lambda>i. xs ! i) idx)
      else Inl IndexError)"

text \<open>\<^verbatim>\<open>m[:, idx]\<close>: the columns of \<open>m\<close> picked by an index array.\<close>

definition take_cols :: "'a matrix \<Rightarrow> nat list \<Rightarrow> error + 'a matrix" where
  "take_cols m idx =
     (if list_all (\<lambda>row. list_all (\<lambda>i. i < length row) idx) m
      then Inr (map (\<lambda>row. map (\<lambda>i. row ! i) idx) m)
      else Inl IndexError)"

text \<open>\<^verbatim>\<open>m[:, j]\<close>: column \<open>j\<close> as a one-dimensional array.\<close>

definition get_col :: "'a matrix \<Rightarrow> nat \<Rightarrow> error + 'a list" where
  "get_col m j =
     (if list_all (\<lambda>row. j < length row) m then Inr (map (\<lambda>row. row ! j) m)
      else Inl IndexError)"

section \<open>eigen\<close>

text \<open>Lines 52-53 and 56-57 of the source: the two slices of the ranking \<open>r\<close> of an array
  of \<open>n\<close> keys, \<^verbatim>\<open>r[int(n/2):]\<close> followed by \<^verbatim>\<open>r[int(n/2) - 1::-1]\<close>.\<close>

definition split_idx :: "real list \<Rightarrow> nat list" where
  "split_idx ks =
     (let h = int (length ks) div 2;
          idxp = slice_from h (argsort ks);
          idxn = slice_down_from (h - 1) (argsort ks)
      in idxp @ idxn)"

text \<open>Lines 47-59: the index array \<^verbatim>\<open>idx\<close>.\<close>

definition eigen_idx :: "complex list \<Rightarrow> nat list" where
  "eigen_idx evalues =
     (if list_all (\<lambda>eigs. eigs = 0) (map Im evalues) then
        if list_all (\<lambda>eigs. eigs > 0) (map Re evalues) then
          argsort (map Re evalues) @ []
        else split_idx (map Re evalues)
      else split_idx (map Im evalues))"

text \<open>Lines 59-61: both results are indexed with the same array.\<close>

definition eigen_reorder ::
  "complex list \<Rightarrow> complex matrix \<Rightarrow> error + (complex list \<times> complex matrix)" where
  "eigen_reorder evalues evectors =
     (let idx = eigen_idx evalues in
      case take_idx evalues idx of
        Inl e \<Rightarrow> Inl e
      | Inr lam \<Rightarrow>
          (case take_cols evectors idx of
             Inl e \<Rightarrow> Inl e
           | Inr P \<Rightarrow> Inr (lam, P)))"

text \<open>The function \<^verbatim>\<open>eigen(A, B=None)\<close>: the solver is called with \<open>A\<close> alone or with
  \<open>A\<close> and \<open>B\<close>; a failure of the solver is passed on.\<close>

definition eigen ::
  "linalg \<Rightarrow> complex matrix \<Rightarrow> complex matrix option \<Rightarrow> error + (complex list \<times> complex matrix)" where
  "eigen la A B =
     (case (case B of None \<Rightarrow> la_eig la A None | Some b \<Rightarrow> la_eig la A (Some b)) of
        Inl e \<Rightarrow> Inl e
      | Inr (evalues, evectors) \<Rightarrow> eigen_reorder evalues evectors)"

section \<open>Matrix operations of numpy used by the module\<close>

definition dot :: "'a::semiring_0 list \<Rightarrow> 'a list \<Rightarrow> 'a" where
  "dot u v = sum_list (map2 (*) u v)"

text \<open>\<^verbatim>\<open>m.T\<close>: the transpose (no conjugation).\<close>

definition mat_T :: "'a matrix \<Rightarrow> 'a matrix" where
  "mat_T m =
     (case m of
        [] \<Rightarrow> []
      | row # _ \<Rightarrow> map (\<lambda>j. map (\<lambda>r. r ! j) m) [0..<length row])"

text \<open>\<^verbatim>\<open>a @ b\<close> for two-dimensional arrays: ValueError when the number of columns of
  \<open>a\<close> is not the number of rows of \<open>b\<close>.\<close>

definition matmul :: "'a::semiring_0 matrix \<Rightarrow> 'a matrix \<Rightarrow> error + 'a matrix" where
  "matmul a b =
     (if list_all (\<lambda>row. length row = length b) a
      then Inr (map (\<lambda>row. map (\<lambda>col. dot row col) (mat_T b)) a)
      else Inl ValueError)"

text \<open>\<^verbatim>\<open>a @ v\<close> for a two-dimensional \<open>a\<close> and a one-dimensional \<open>v\<close>.\<close>

definition apply_mat :: "'a::semiring_0 matrix \<Rightarrow> 'a list \<Rightarrow> 'a list" where
  "apply_mat a v = map (\<lambda>row. dot row v) a"

definition matvec :: "'a::semiring_0 matrix \<Rightarrow> 'a list \<Rightarrow> error + 'a list" where
  "matvec a v =
     (if list_all (\<lambda>row. length row = length v) a then Inr (apply_mat a v)
      else Inl ValueError)"

definition mat_neg :: "'a::uminus matrix \<Rightarrow> 'a matrix" where
  "mat_neg m = map (map uminus) m"

definition mat_scale :: "'a::times matrix \<Rightarrow> 'a \<Rightarrow> 'a matrix" where
  "mat_scale m c = map (map (\<lambda>x. x * c)) m"

definition zeros :: "nat \<Rightarrow> nat \<Rightarrow> 'a::zero matrix" where
  "zeros r c = replicate r (replicate c 0)"

definition eye :: "nat \<Rightarrow> nat \<Rightarrow> 'a::zero_neq_one matrix" where
  "eye r c = map (\<lambda>i. map (\<lambda>j. if i = j then 1 else 0) [0..<c]) [0..<r]"

text \<open>\<^verbatim>\<open>hstack([a, b])\<close> and \<^verbatim>\<open>vstack([a, b])\<close> of two-dimensional arrays: ValueError
  when the row counts (the column counts) differ.\<close>

definition hstack :: "'a matrix \<Rightarrow> 'a matrix \<Rightarrow> error + 'a matrix" where
  "hstack a b = (if length a = length b then Inr (map2 (@) a b) else Inl ValueError)"

definition vstack :: "'a matrix \<Rightarrow> 'a matrix \<Rightarrow> error + 'a matrix" where
  "vstack a b =
     (if list_all (\<lambda>ra. list_all (\<lambda>rb. length ra = length rb) b) a then Inr (a @ b)
      else Inl ValueError)"

text \<open>\<^verbatim>\<open>t[i]\<close> for a non-negative \<open>i\<close>.\<close>

definition index :: "'a list \<Rightarrow> nat \<Rightarrow> error + 'a" where
  "index t i = (if i < length t then Inr (t ! i) else Inl IndexError)"

text \<open>\<^verbatim>\<open>X[:, j] = v\<close>: the column is overwritten in place.  A value of length one is
  broadcast to the whole column; any other length that is not the number of rows is a
  ValueError.\<close>

definition set_col :: "'a matrix \<Rightarrow> nat \<Rightarrow> 'a list \<Rightarrow> error + 'a matrix" where
  "set_col X j v =
     (if \<not> list_all (\<lambda>row. j < length row) X then Inl IndexError
      else if length v = length X then Inr (map2 (\<lambda>row x. row[j := x]) X v)
      else if length v = 1 then Inr (map (\<lambda>row. row[j := hd v]) X)
      else Inl ValueError)"

text \<open>\<^verbatim>\<open>int(x)\<close> of a float: truncation towards zero.  Where it is applied to the
  product \<^verbatim>\<open>250 * max_time\<close>, the model takes the exact product; the code's product is
  rounded to the nearest double first, which moves the result by one when the exact
  product is within the relative distance \<open>2 ^ -53\<close> of a whole number.  What is proved of
  the number of samples holds for both.\<close>

definition py_int :: "real \<Rightarrow> int" where
  "py_int x = (if 0 \<le> x then \<lfloor>x\<rfloor> else \<lceil>x\<rceil>)"

text \<open>\<^verbatim>\<open>linspace(start, stop, num)\<close> with the end point included: ValueError for a
  negative \<open>num\<close>, the single sample \<open>start\<close> for \<open>num = 1\<close>, and otherwise \<open>num\<close> samples
  with step \<open>(stop - start) / (num - 1)\<close>.\<close>

definition linspace :: "real \<Rightarrow> real \<Rightarrow> int \<Rightarrow> error + real list" where
  "linspace start stop num =
     (if num < 0 then Inl ValueError
      else if num = 1 then Inr [start]
      else Inr (map (\<lambda>i. start + real i * ((stop - start) / real_of_int (num - 1)))
                  [0..<nat num]))"

section \<open>modes\_system\_undamped\<close>

definition modes_system_undamped ::
  "linalg \<Rightarrow> complex matrix \<Rightarrow> complex matrix \<Rightarrow>
     error + (complex list \<times> complex matrix \<times> complex matrix \<times> complex matrix)" where
  "modes_system_undamped la M K =
     (case la_cholesky la M of
        Inl e \<Rightarrow> Inl e
      | Inr L \<Rightarrow>
     (case la_inv la L of
        Inl e \<Rightarrow> Inl e
      | Inr Linv \<Rightarrow>
     (case matmul Linv K of
        Inl e \<Rightarrow> Inl e
      | Inr LK \<Rightarrow>
     (case matmul LK (mat_T Linv) of
        Inl e \<Rightarrow> Inl e
      | Inr W \<Rightarrow>
     (case eigen la W None of
        Inl e \<Rightarrow> Inl e
      | Inr (lam, P) \<Rightarrow>
     (case matmul Linv P of
        Inl e \<Rightarrow> Inl e
      | Inr S \<Rightarrow>
     (case matmul (mat_T P) Linv of
        Inl e \<Rightarrow> Inl e
      | Inr Sinv \<Rightarrow> Inr (lam, P, S, Sinv))))))))"

section \<open>response\_system\_undamped\<close>

text \<open>Lines 154-161: the state space matrix.  The unary minus binds tighter than
  \<^verbatim>\<open>@\<close>, so the pseudo-inverse is negated before it is multiplied with \<open>K\<close>.\<close>

definition state_matrix :: "linalg \<Rightarrow> real matrix \<Rightarrow> real matrix \<Rightarrow> error + real matrix" where
  "state_matrix la M K =
     (let n = length M; Z = zeros n n; I = eye n n in
      case hstack Z I of
        Inl e \<Rightarrow> Inl e
      | Inr top_rows \<Rightarrow>
     (case la_pinv la M of
        Inl e \<Rightarrow> Inl e
      | Inr Mp \<Rightarrow>
     (case matmul (mat_neg Mp) K of
        Inl e \<Rightarrow> Inl e
      | Inr MK \<Rightarrow>
     (case hstack MK Z of
        Inl e \<Rightarrow> Inl e
      | Inr bottom_rows \<Rightarrow> vstack top_rows bottom_rows))))"

text \<open>Lines 169-170: the loop over \<^verbatim>\<open>range(len(t) - 1)\<close>, one recursive call for each
  index.\<close>

fun propagate :: "real matrix \<Rightarrow> nat list \<Rightarrow> real matrix \<Rightarrow> error + real matrix" where
  "propagate Ad [] X = Inr X"
| "propagate Ad (i # is) X =
     (case get_col X i of
        Inl e \<Rightarrow> Inl e
      | Inr c \<Rightarrow>
     (case matvec Ad c of
        Inl e \<Rightarrow> Inl e
      | Inr v \<Rightarrow>
     (case set_col X (i + 1) v of
        Inl e \<Rightarrow> Inl e
      | Inr X' \<Rightarrow> propagate Ad is X')))"

definition response_system_undamped ::
  "linalg \<Rightarrow> real matrix \<Rightarrow> real matrix \<Rightarrow> real list \<Rightarrow> real list \<Rightarrow> real \<Rightarrow>
     error + (real list \<times> real matrix)" where
  "response_system_undamped la M K x0 v0 max_time =
     (case linspace 0 max_time (py_int (250 * max_time)) of
        Inl e \<Rightarrow> Inl e
      | Inr t \<Rightarrow>
     (case index t 1 of
        Inl e \<Rightarrow> Inl e
      | Inr t1 \<Rightarrow>
     (case index t 0 of
        Inl e \<Rightarrow> Inl e
      | Inr t0 \<Rightarrow>
     (let dt = t1 - t0; n = length M in
      case state_matrix la M K of
        Inl e \<Rightarrow> Inl e
      | Inr A \<Rightarrow>
     (case set_col (zeros (2 * n) (length t)) 0 (x0 @ v0) of
        Inl e \<Rightarrow> Inl e
      | Inr X \<Rightarrow>
     (case la_expm la (mat_scale A dt) of
        Inl e \<Rightarrow> Inl e
      | Inr Ad \<Rightarrow>
     (case propagate Ad [0..<length t - 1] X of
        Inl e \<Rightarrow> Inl e
      | Inr X' \<Rightarrow> Inr (t, X'))))))))"

section \<open>A library instance for running the model\<close>

text \<open>
  To run the model on concrete inputs, the routines of the library are instantiated on
  the inputs where their results are plain: a diagonal matrix has its diagonal entries as
  eigenvalues and the unit vectors as eigenvectors, its Cholesky factor, inverse and
  pseudo-inverse are diagonal again; the exponential of a matrix whose square is zero is
  the identity plus the matrix.  On every other input the instance reports a failure.
\<close>

definition is_diag :: "'a::zero matrix \<Rightarrow> bool" where
  "is_diag m =
     (list_all (\<lambda>row. length row = length m) m \<and>
      list_all (\<lambda>i. list_all (\<lambda>j. i = j \<or> m ! i ! j = 0) [0..<length m]) [0..<length m])"

definition diag_of :: "'a matrix \<Rightarrow> 'a list" where
  "diag_of m = map (\<lambda>i. m ! i ! i) [0..<length m]"

definition diag_mat :: "'a::zero list \<Rightarrow> 'a matrix" where
  "diag_mat d =
     map (\<lambda>i. map (\<lambda>j. if i = j then d ! i else 0) [0..<length d]) [0..<length d]"

definition mat_add :: "'a::plus matrix \<Rightarrow> 'a matrix \<Rightarrow> 'a matrix" where
  "mat_add a b = map2 (map2 (+)) a b"

definition la_diag :: linalg where
  "la_diag =
     \<lparr> la_eig = (\<lambda>A B.
         if is_diag A \<and> B = None then Inr (diag_of A, eye (length A) (length A))
         else Inl LinAlgError),
       la_cholesky = (\<lambda>M.
         if is_diag M \<and> list_all (\<lambda>d. Im d = 0 \<and> 0 < Re d) (diag_of M)
         then Inr (diag_mat (map (\<lambda>d. of_real (sqrt (Re d))) (diag_of M)))
         else Inl LinAlgError),
       la_inv = (\<lambda>M.
         if is_diag M \<and> list_all (\<lambda>d. d \<noteq> 0) (diag_of M)
         then Inr (diag_mat (map inverse (diag_of M)))
         else Inl LinAlgError),
       la_pinv = (\<lambda>M.
         if is_diag M then Inr (diag_mat (map inverse (diag_of M)))
         else Inl LinAlgError),
       la_expm = (\<lambda>A.
         if list_all (\<lambda>row. length row = length A) A \<and>
            matmul A A = Inr (zeros (length A) (length A))
         then Inr (mat_add (eye (length A) (length A)) A)
         else Inl LinAlgError) \<rparr>"

text \<open>
  The same instance, extended by the results of the library on one matrix that is not
  diagonal: \<open>[[4, 2], [2, 2]]\<close> is symmetric and positive definite, its upper Cholesky
  factor (the factor \<^verbatim>\<open>scipy.linalg.cholesky\<close> returns when it is called, as here,
  without \<^verbatim>\<open>lower=True\<close>) is \<open>[[2, 1], [0, 1]]\<close>, whose inverse is
  \<open>[[1/2, -1/2], [0, 1]]\<close>.
\<close>

definition la_upper :: linalg where
  "la_upper =
     la_diag
     \<lparr> la_cholesky := (\<lambda>M.
         if M = [[4, 2], [2, 2]] then Inr [[2, 1], [0, 1]] else la_cholesky la_diag M),
       la_inv := (\<lambda>M.
         if M = [[2, 1], [0, 1]] then Inr [[1 / 2, - 1 / 2], [0, 1]]
         else la_inv la_diag M) \<rparr>"

section \<open>Evaluation rules and basic facts\<close>

lemmas array_defs = argsort_def slice_from_def slice_down_from_def take_idx_def take_cols_def
  get_col_def dot_def mat_T_def matmul_def apply_mat_def matvec_def mat_neg_def mat_scale_def
  zeros_def eye_def hstack_def vstack_def index_def set_col_def py_int_def linspace_def

lemmas eigen_defs = split_idx_def eigen_idx_def eigen_reorder_def eigen_def

lemmas diag_defs = is_diag_def diag_of_def diag_mat_def mat_add_def la_diag_def

lemma argsort_mset: "mset (argsort ks) = mset [0..<length ks]"
  by (simp add: argsort_def)

lemma argsort_length: "length (argsort ks) = length ks"
  by (simp add: argsort_def)

lemma argsort_set: "set (argsort ks) = {0..<length ks}"
  by (simp add: argsort_def)

lemma argsort_sorted: "sorted (map (\<lambda>i. ks ! i) (argsort ks))"
  by (simp add: argsort_def)

lemma slice_from_nat: "slice_from (int k) a = drop k a"
  by (simp add: slice_from_def Let_def min_def)

lemma slice_down_from_nat: "slice_down_from (int k) a = rev (take (Suc k) a)"
proof (cases "k < length a")
  case True
  then have "min (int k) (int (length a) - 1) = int k" by simp
  then show ?thesis by (simp add: slice_down_from_def Let_def Suc_as_int)
next
  case False
  then have "min (int k) (int (length a) - 1) = int (length a) - 1" by simp
  then show ?thesis using False by (simp add: slice_down_from_def Let_def)
qed

lemma slice_down_from_minus_one: "slice_down_from (- 1) a = rev a"
  by (cases "a = []") (simp_all add: slice_down_from_def Let_def max_def)

lemma split_idx_regular:
  assumes "length ks \<noteq> 1"
  shows "split_idx ks =
    drop (length ks div 2) (argsort ks) @ rev (take (length ks div 2) (argsort ks))"
proof (cases "length ks = 0")
  case True
  then show ?thesis
    by (simp add: split_idx_def slice_from_def slice_down_from_def argsort_def)
next
  case False
  with assms have "2 \<le> length ks" by arith
  then obtain m where m: "length ks div 2 = Suc m" by (cases "length ks div 2") auto
  have a: "int (length ks) div 2 = int (Suc m)" using m by (metis zdiv_int of_nat_numeral)
  have b: "int (Suc m) - 1 = int m" by simp
  show ?thesis
    unfolding split_idx_def Let_def a b slice_from_nat slice_down_from_nat m ..
qed

lemma split_idx_single:
  assumes "length ks = 1"
  shows "split_idx ks = [0, 0]"
proof -
  have a: "int (length ks) div 2 = int 0" using assms by simp
  have r: "argsort ks = [0]" using assms by (simp add: argsort_def)
  show ?thesis
    unfolding split_idx_def Let_def a slice_from_nat by (simp add: slice_down_from_minus_one r)
qed

lemma split_idx_in_range: "set (split_idx ks) \<subseteq> {0..<length ks}"
proof (cases "length ks = 1")
  case True
  then show ?thesis by (simp add: split_idx_single)
next
  case False
  have "set (drop (length ks div 2) (argsort ks)) \<subseteq> set (argsort ks)"
    by (rule set_drop_subset)
  moreover have "set (take (length ks div 2) (argsort ks)) \<subseteq> set (argsort ks)"
    by (rule set_take_subset)
  ultimately show ?thesis
    using False by (simp add: split_idx_regular argsort_set)
qed

lemma split_idx_mset:
  assumes "length ks \<noteq> 1"
  shows "mset (split_idx ks) = mset [0..<length ks]"
proof -
  have "mset (split_idx ks) =
      mset (take (length ks div 2) (argsort ks)) + mset (drop (length ks div 2) (argsort ks))"
    using assms by (simp add: split_idx_regular)
  also have "\<dots> = mset (take (length ks div 2) (argsort ks) @ drop (length ks div 2) (argsort ks))"
    by (simp only: mset_append)
  finally show ?thesis by (simp add: argsort_mset)
qed

lemma eigen_idx_in_range: "set (eigen_idx evalues) \<subseteq> {0..<length evalues}"
  using split_idx_in_range [of "map Re evalues"] split_idx_in_range [of "map Im evalues"]
  by (simp add: eigen_idx_def argsort_set)

lemma eigen_idx_positive_real:
  assumes "\<forall>e\<in>set evalues. Im e = 0" and "\<forall>e\<in>set evalues. 0 < Re e"
  shows "eigen_idx evalues = argsort (map Re evalues)"
  using assms by (simp add: eigen_idx_def list_all_iff)

lemma eigen_idx_mset:
  assumes "length evalues \<noteq> 1"
  shows "mset (eigen_idx evalues) = mset [0..<length evalues]"
  using assms split_idx_mset [of "map Re evalues"] split_idx_mset [of "map Im evalues"]
  by (simp add: eigen_idx_def argsort_mset)

lemma take_idx_in_range:
  assumes "set idx \<subseteq> {0..<length xs}"
  shows "take_idx xs idx = Inr (map (\<lambda>i. xs ! i) idx)"
  using assms by (auto simp: take_idx_def list_all_iff)

lemma mset_map_nth_perm:
  assumes "mset idx = mset [0..<length xs]"
  shows "mset (map (\<lambda>i. xs ! i) idx) = mset xs"
proof -
  have "mset (map (\<lambda>i. xs ! i) idx) = image_mset (\<lambda>i. xs ! i) (mset idx)" by simp
  also have "\<dots> = mset (map (\<lambda>i. xs ! i) [0..<length xs])" unfolding assms by simp
  also have "\<dots> = mset xs" by (simp add: map_nth)
  finally show ?thesis .
qed

lemma eigen_solver_call:
  "(case B of None \<Rightarrow> la_eig la A None | Some b \<Rightarrow> la_eig la A (Some b)) = la_eig la A B"
  by (cases B) simp_all

lemma eigen_unfold:
  assumes "la_eig la A B = Inr (evalues, evectors)"
  shows "eigen la A B =
    (case take_cols evectors (eigen_idx evalues) of
       Inl e \<Rightarrow> Inl e
     | Inr P \<Rightarrow> Inr (map (\<lambda>i. evalues ! i) (eigen_idx evalues), P))"
  using assms eigen_idx_in_range [of evalues]
  by (simp add: eigen_def eigen_solver_call eigen_reorder_def take_idx_in_range Let_def)


section \<open>The eigenvalue sorter\<close>

lemma take_cols_full:
  assumes "\<forall>row\<in>set m. length row = n" and "set idx \<subseteq> {0..<n}"
  shows "take_cols m idx = Inr (map (\<lambda>row. map (\<lambda>i. row ! i) idx) m)"
  using assms by (auto simp: take_cols_def list_all_iff)

text \<open>
  Claim C7.  When every eigenvalue the solver returns has imaginary part exactly zero and
  a strictly positive real part, \<open>eigen\<close> returns the eigenvalues in ascending order of
  their real parts: the index array is the ranking by real part alone, there is no negative
  block, the result is a rearrangement of the solver's eigenvalues, and it has the same
  length.  (The solver returns one eigenvector column for each eigenvalue.)
\<close>

theorem eigen_positive_real_ascending:
  assumes eig: "la_eig la A B = Inr (evalues, evectors)"
    and real: "\<forall>e\<in>set evalues. Im e = 0"
    and pos: "\<forall>e\<in>set evalues. 0 < Re e"
    and cols: "\<forall>row\<in>set evectors. length row = length evalues"
  shows "\<exists>lam P. eigen la A B = Inr (lam, P) \<and>
           lam = map (\<lambda>i. evalues ! i) (argsort (map Re evalues)) \<and>
           P = map (\<lambda>row. map (\<lambda>i. row ! i) (argsort (map Re evalues))) evectors \<and>
           sorted (map Re lam) \<and> mset lam = mset evalues \<and> length lam = length evalues"
proof -
  let ?r = "argsort (map Re evalues)"
  let ?lam = "map (\<lambda>i. evalues ! i) ?r"
  have idx: "eigen_idx evalues = ?r"
    using real pos by (rule eigen_idx_positive_real)
  have rng: "set ?r \<subseteq> {0..<length evalues}"
    by (simp add: argsort_set)
  have run: "eigen la A B = Inr (?lam, map (\<lambda>row. map (\<lambda>i. row ! i) ?r) evectors)"
    using eig by (simp add: eigen_unfold idx take_cols_full [OF cols rng])
  have eq: "map Re ?lam = map (\<lambda>i. map Re evalues ! i) ?r"
    using rng by auto
  have srt: "sorted (map Re ?lam)"
    unfolding eq by (rule argsort_sorted)
  have "mset ?r = mset [0..<length evalues]"
    using argsort_mset [of "map Re evalues"] by simp
  then have perm: "mset ?lam = mset evalues"
    by (rule mset_map_nth_perm)
  have len: "length ?lam = length evalues"
    by (simp add: argsort_length)
  show ?thesis using run srt perm len by blast
qed

theorem eigen_positive_real_ascending_witness:
  "eigen la_diag [[1, 0, 0], [0, 5, 0], [0, 0, 3]] None =
     Inr ([1, 3, 5], [[1, 0, 0], [0, 0, 1], [0, 1, 0]])"
proof -
  have eig: "la_eig la_diag [[1, 0, 0], [0, 5, 0], [0, 0, 3]] None =
      Inr ([1, 5, 3], [[1, 0, 0], [0, 1, 0], [0, 0, 1]])"
    by (simp add: diag_defs eye_def upt_rec)
  have r: "argsort [1, 5, 3] = [0, 2, 1]"
    by (simp add: argsort_def upt_rec)
  show ?thesis
    using eigen_positive_real_ascending [OF eig] by (simp add: r)
qed

text \<open>
  Claim C5.  The eigenvalues and the eigenvector columns are indexed with the same array:
  position \<open>i\<close> of the result holds the solver's eigenvalue number \<open>idx ! i\<close> and the
  solver's eigenvector column number \<open>idx ! i\<close>, so every eigenvalue of the result is still
  beside its own eigenvector: any relation \<open>Q\<close> that holds between each eigenvalue and the
  column at the same position of the solver's result (such as being an eigenpair of the
  input) holds between each eigenvalue and the column at the same position of the
  result.
\<close>

theorem eigen_pairs_follow_index:
  assumes eig: "la_eig la A B = Inr (evalues, evectors)"
    and run: "eigen la A B = Inr (lam, P)"
  shows "length lam = length (eigen_idx evalues) \<and>
         (\<forall>i<length lam.
            eigen_idx evalues ! i < length evalues \<and>
            lam ! i = evalues ! (eigen_idx evalues ! i) \<and>
            get_col P i = Inr (map (\<lambda>row. row ! (eigen_idx evalues ! i)) evectors) \<and>
            get_col evectors (eigen_idx evalues ! i) = get_col P i) \<and>
         (\<forall>Q. (\<forall>j<length evalues. Q (evalues ! j) (get_col evectors j)) \<longrightarrow>
              (\<forall>i<length lam. Q (lam ! i) (get_col P i)))"
proof -
  let ?idx = "eigen_idx evalues"
  from eig run have tc: "take_cols evectors ?idx = Inr P"
    and lam: "lam = map (\<lambda>i. evalues ! i) ?idx"
    by (auto simp: eigen_unfold split: sum.splits)
  from tc have inb: "\<forall>row\<in>set evectors. \<forall>j\<in>set ?idx. j < length row"
    and P: "P = map (\<lambda>row. map (\<lambda>i. row ! i) ?idx) evectors"
    by (auto simp: take_cols_def list_all_iff split: if_splits)
  have len: "length lam = length ?idx" using lam by simp
  {
    fix i assume i: "i < length lam"
    then have mem: "?idx ! i \<in> set ?idx" using len by simp
    then have a: "?idx ! i < length evalues"
      using eigen_idx_in_range [of evalues] by auto
    have b: "lam ! i = evalues ! (?idx ! i)" using lam i by simp
    have c: "get_col P i = Inr (map (\<lambda>row. row ! (?idx ! i)) evectors)"
      using i len by (simp add: P get_col_def list_all_iff comp_def)
    have d: "get_col evectors (?idx ! i) = Inr (map (\<lambda>row. row ! (?idx ! i)) evectors)"
      using inb mem by (simp add: get_col_def list_all_iff)
    note a b c d
  }
  note pos = this
  have "Q (lam ! i) (get_col P i)"
    if raw: "\<forall>j<length evalues. Q (evalues ! j) (get_col evectors j)" and i: "i < length lam"
    for Q i
    using raw [rule_format, OF pos(1) [OF i]] pos(2) [OF i] pos(3) [OF i] pos(4) [OF i] by simp
  then have transfer: "\<forall>Q. (\<forall>j<length evalues. Q (evalues ! j) (get_col evectors j)) \<longrightarrow>
      (\<forall>i<length lam. Q (lam ! i) (get_col P i))"
    by blast
  have "\<forall>i<length lam.
            eigen_idx evalues ! i < length evalues \<and>
            lam ! i = evalues ! (eigen_idx evalues ! i) \<and>
            get_col P i = Inr (map (\<lambda>row. row ! (eigen_idx evalues ! i)) evectors) \<and>
            get_col evectors (eigen_idx evalues ! i) = get_col P i"
    using pos by simp
  with len transfer show ?thesis by blast
qed

theorem eigen_pairs_follow_index_witness:
  "eigen la_diag [[1, 0, 0], [0, 5, 0], [0, 0, 3]] None =
     Inr ([1, 3, 5], [[1, 0, 0], [0, 0, 1], [0, 1, 0]]) \<and>
   eigen_idx [1, 5, 3] = [0, 2, 1] \<and>
   get_col [[1, 0, 0], [0, 0, 1], [0, 1, 0 :: complex]] 1 =
     get_col [[1, 0, 0], [0, 1, 0], [0, 0, 1]] 2"
proof -
  have eig: "la_eig la_diag [[1, 0, 0], [0, 5, 0], [0, 0, 3]] None =
      Inr ([1, 5, 3], [[1, 0, 0], [0, 1, 0], [0, 0, 1]])"
    by (simp add: diag_defs eye_def upt_rec)
  have run: "eigen la_diag [[1, 0, 0], [0, 5, 0], [0, 0, 3]] None =
      Inr ([1, 3, 5], [[1, 0, 0], [0, 0, 1], [0, 1, 0]])"
    by (simp add: array_defs eigen_defs diag_defs upt_rec)
  have idx: "eigen_idx [1, 5, 3] = [0, 2, 1]"
    by (simp add: eigen_idx_def argsort_def upt_rec)
  have "get_col [[1, 0, 0], [0, 1, 0], [0, 0, 1 :: complex]] (eigen_idx [1, 5, 3] ! 1) =
      get_col [[1, 0, 0], [0, 0, 1], [0, 1, 0]] 1"
    using eigen_pairs_follow_index [OF eig run, THEN conjunct2, THEN conjunct1, rule_format, of 1]
    by simp
  then show ?thesis using run idx by simp
qed


lemma eigen_idx_branch:
  "((\<forall>e\<in>set evalues. Im e = 0) \<longrightarrow>
      eigen_idx evalues =
        (if \<forall>e\<in>set evalues. 0 < Re e then argsort (map Re evalues)
         else split_idx (map Re evalues))) \<and>
   ((\<exists>e\<in>set evalues. Im e \<noteq> 0) \<longrightarrow>
      eigen_idx evalues = split_idx (map Im evalues))"
  by (auto simp: eigen_idx_def list_all_iff)

text \<open>
  Claim C8.  \<open>eigen\<close> takes the real-spectrum branch exactly when every imaginary part of
  the solver's eigenvalues equals zero: then its result is the solver's result indexed by
  an array that depends on the real parts only (the plain ranking when all are positive,
  the split of the ranking otherwise).  As soon as one imaginary part differs from zero,
  by however little, the result is the solver's result indexed by the split of the
  ranking by imaginary part.  The test is the exact comparison with zero.
\<close>

theorem eigen_branch_exact_zero:
  assumes eig: "la_eig la A B = Inr (evalues, evectors)"
  shows
    "((\<forall>e\<in>set evalues. Im e = 0) \<longrightarrow>
        eigen la A B =
          (case take_cols evectors
                  (if \<forall>e\<in>set evalues. 0 < Re e then argsort (map Re evalues)
                   else split_idx (map Re evalues)) of
             Inl e \<Rightarrow> Inl e
           | Inr P \<Rightarrow>
               Inr (map (\<lambda>i. evalues ! i)
                      (if \<forall>e\<in>set evalues. 0 < Re e then argsort (map Re evalues)
                       else split_idx (map Re evalues)), P))) \<and>
     ((\<exists>e\<in>set evalues. Im e \<noteq> 0) \<longrightarrow>
        eigen la A B =
          (case take_cols evectors (split_idx (map Im evalues)) of
             Inl e \<Rightarrow> Inl e
           | Inr P \<Rightarrow> Inr (map (\<lambda>i. evalues ! i) (split_idx (map Im evalues)), P)))"
proof (intro conjI impI)
  assume "\<forall>e\<in>set evalues. Im e = 0"
  then have idx: "eigen_idx evalues =
      (if \<forall>e\<in>set evalues. 0 < Re e then argsort (map Re evalues)
       else split_idx (map Re evalues))"
    using eigen_idx_branch [of evalues] by blast
  show "eigen la A B =
          (case take_cols evectors
                  (if \<forall>e\<in>set evalues. 0 < Re e then argsort (map Re evalues)
                   else split_idx (map Re evalues)) of
             Inl e \<Rightarrow> Inl e
           | Inr P \<Rightarrow>
               Inr (map (\<lambda>i. evalues ! i)
                      (if \<forall>e\<in>set evalues. 0 < Re e then argsort (map Re evalues)
                       else split_idx (map Re evalues)), P))"
    unfolding eigen_unfold [OF eig] idx by (rule refl)
next
  assume "\<exists>e\<in>set evalues. Im e \<noteq> 0"
  then have idx: "eigen_idx evalues = split_idx (map Im evalues)"
    using eigen_idx_branch [of evalues] by blast
  show "eigen la A B =
          (case take_cols evectors (split_idx (map Im evalues)) of
             Inl e \<Rightarrow> Inl e
           | Inr P \<Rightarrow> Inr (map (\<lambda>i. evalues ! i) (split_idx (map Im evalues)), P))"
    unfolding eigen_unfold [OF eig] idx by (rule refl)
qed

theorem eigen_branch_exact_zero_witness:
  "eigen la_diag [[2, 0], [0, 1]] None = Inr ([1, 2], [[0, 1], [1, 0]]) \<and>
   eigen la_diag [[Complex 2 (1 / 10 ^ 20), 0], [0, Complex 1 (- 1 / 10 ^ 20)]] None =
     Inr ([Complex 2 (1 / 10 ^ 20), Complex 1 (- 1 / 10 ^ 20)], [[1, 0], [0, 1]])"
proof -
  have e1: "la_eig la_diag [[2, 0], [0, 1]] None = Inr ([2, 1], [[1, 0], [0, 1]])"
    by (simp add: diag_defs eye_def upt_rec)
  have a: "\<forall>e\<in>set [2, 1 :: complex]. Im e = 0" by simp
  have r1: "\<not> (\<exists>e\<in>set [Complex 2 (1 / 10 ^ 20), Complex 1 (- 1 / 10 ^ 20)]. Im e = 0)"
    by simp
  have e2: "la_eig la_diag [[Complex 2 (1 / 10 ^ 20), 0], [0, Complex 1 (- 1 / 10 ^ 20)]] None =
      Inr ([Complex 2 (1 / 10 ^ 20), Complex 1 (- 1 / 10 ^ 20)], [[1, 0], [0, 1]])"
    by (simp add: diag_defs eye_def upt_rec)
  have b: "\<exists>e\<in>set [Complex 2 (1 / 10 ^ 20), Complex 1 (- 1 / 10 ^ 20)]. Im e \<noteq> 0"
    by simp
  have "eigen la_diag [[2, 0], [0, 1]] None = Inr ([1, 2], [[0, 1], [1, 0]])"
    using a eigen_branch_exact_zero [OF e1, THEN conjunct1]
    by (simp add: split_idx_def array_defs upt_rec)
  moreover have "eigen la_diag [[Complex 2 (1 / 10 ^ 20), 0], [0, Complex 1 (- 1 / 10 ^ 20)]] None =
     Inr ([Complex 2 (1 / 10 ^ 20), Complex 1 (- 1 / 10 ^ 20)], [[1, 0], [0, 1]])"
    using b eigen_branch_exact_zero [OF e2, THEN conjunct2]
    by (simp add: split_idx_def array_defs upt_rec)
  ultimately show ?thesis by simp
qed

text \<open>
  The split of lines 52-53 and 56-57 on an array that does not have exactly one element:
  the upper part of the ranking in ascending order, then the lower part in descending
  order, no key of the lower part above a key of the upper part.  Together the two parts
  are a rearrangement of all indices, so the result of \<open>eigen\<close> is a rearrangement of the
  solver's eigenvalues.
\<close>

lemma split_blocks_ordered:
  "sorted (map (\<lambda>i. ks ! i) (drop h (argsort ks))) \<and>
   sorted (rev (map (\<lambda>i. ks ! i) (rev (take h (argsort ks))))) \<and>
   (\<forall>i\<in>set (take h (argsort ks)). \<forall>j\<in>set (drop h (argsort ks)). ks ! i \<le> ks ! j)"
proof -
  let ?r = "argsort ks"
  let ?f = "\<lambda>i. ks ! i"
  have s: "sorted (map ?f ?r)" by (rule argsort_sorted)
  have "sorted (drop h (map ?f ?r))" using s by (rule sorted_wrt_drop)
  then have a: "sorted (map ?f (drop h ?r))" by (simp add: drop_map)
  have "sorted (take h (map ?f ?r))" using s by (rule sorted_wrt_take)
  then have b: "sorted (rev (map ?f (rev (take h ?r))))" by (simp add: take_map rev_map)
  have "sorted (map ?f (take h ?r @ drop h ?r))" using s by simp
  then have c: "\<forall>i\<in>set (take h ?r). \<forall>j\<in>set (drop h ?r). ks ! i \<le> ks ! j"
    unfolding map_append sorted_append by auto
  show ?thesis using a b c by blast
qed

lemma eigen_idx_split_policy:
  assumes "length evalues \<noteq> 1"
    and "(\<exists>e\<in>set evalues. Im e \<noteq> 0) \<or> (\<exists>e\<in>set evalues. Re e \<le> 0)"
  shows "eigen_idx evalues =
    (let ks = (if \<forall>e\<in>set evalues. Im e = 0 then map Re evalues else map Im evalues);
         h = length evalues div 2
     in drop h (argsort ks) @ rev (take h (argsort ks)))"
  using assms split_idx_regular [of "map Re evalues"] split_idx_regular [of "map Im evalues"]
  by (auto simp: eigen_idx_def list_all_iff Let_def not_less)

lemma eigen_rearranges_regular:
  assumes eig: "la_eig la A B = Inr (evalues, evectors)"
    and run: "eigen la A B = Inr (lam, P)"
    and n: "length evalues \<noteq> 1"
  shows "mset lam = mset evalues \<and> length lam = length evalues"
proof -
  from eig run have lam: "lam = map (\<lambda>i. evalues ! i) (eigen_idx evalues)"
    by (auto simp: eigen_unfold split: sum.splits)
  have p: "mset (eigen_idx evalues) = mset [0..<length evalues]"
    using n by (rule eigen_idx_mset)
  then have "mset lam = mset evalues"
    unfolding lam by (rule mset_map_nth_perm)
  moreover have "length lam = length evalues"
    using p lam by (metis length_map mset_eq_length length_upt diff_zero)
  ultimately show ?thesis by simp
qed

text \<open>
  Claim C1.  The split by halves fails for a single eigenvalue: \<^verbatim>\<open>int(1/2) - 1\<close> is
  \<open>-1\<close>, which as the start of the descending slice is the last element, so the lower
  block is the whole ranking and not the empty lower half.  A single eigenvalue with a
  nonzero imaginary part is returned twice.
\<close>

theorem eigen_single_complex_eigenvalue:
  assumes eig: "la_eig la [[a]] B = Inr ([ev], [[v]])"
    and im: "Im ev \<noteq> 0"
  shows "eigen la [[a]] B = Inr ([ev, ev], [[v, v]])"
  using eig im
  by (simp add: eigen_unfold eigen_idx_def split_idx_single take_cols_def)

theorem eigen_single_complex_eigenvalue_witness:
  "eigen la_diag [[\<i>]] None = Inr ([\<i>, \<i>], [[1, 1]])"
proof -
  have eig: "la_eig la_diag [[\<i>]] None = Inr ([\<i>], [[1]])"
    by (simp add: diag_defs eye_def upt_rec)
  show ?thesis
    using eigen_single_complex_eigenvalue [OF eig] by simp
qed

text \<open>
  Claim C4.  For a single eigenvalue that is real and not positive, the same slice
  returns the eigenpair twice: the result has two eigenvalues and two eigenvector columns
  for a matrix of dimension one, and is not a rearrangement of the solver's result.
\<close>

theorem eigen_single_nonpositive_eigenvalue:
  assumes eig: "la_eig la [[a]] B = Inr ([ev], [[v]])"
    and re: "Re ev \<le> 0"
  shows "\<exists>lam P. eigen la [[a]] B = Inr (lam, P) \<and> lam = [ev, ev] \<and> P = [[v, v]] \<and>
           length lam = 2 \<and> mset lam \<noteq> mset [ev]"
  using eig re
  by (simp add: eigen_unfold eigen_idx_def split_idx_single take_cols_def)

theorem eigen_single_nonpositive_eigenvalue_witness:
  "eigen la_diag [[- 1]] None = Inr ([- 1, - 1], [[1, 1]])"
proof -
  have eig: "la_eig la_diag [[- 1]] None = Inr ([- 1], [[1]])"
    by (simp add: diag_defs eye_def upt_rec)
  show ?thesis
    using eigen_single_nonpositive_eigenvalue [OF eig] by simp
qed


section \<open>The modal decomposition\<close>

text \<open>
  Claim C9.  The fourth result is \<open>P\<^sup>T \<cdot> Linv\<close>, and the third is \<open>Linv \<cdot> P\<close>; their
  product is \<open>P\<^sup>T \<cdot> Linv \<cdot> Linv \<cdot> P\<close>, which is not the identity unless the square of \<open>Linv\<close>
  is.  For the mass \<open>[[4]]\<close> and the stiffness \<open>[[4]]\<close> the Cholesky factor is \<open>[[2]]\<close>, its
  inverse \<open>[[1/2]]\<close>, the whitened matrix \<open>[[1]]\<close> with eigenvalue 1 and eigenvector 1;
  the function returns \<open>S = [[1/2]]\<close> and \<open>Sinv = [[1/2]]\<close>, and \<open>Sinv \<cdot> S = [[1/4]]\<close>.
\<close>

theorem modes_sinv_not_inverse:
  assumes chol: "la_cholesky la [[4]] = Inr [[2]]"
    and inv: "la_inv la [[2]] = Inr [[1 / 2]]"
    and eig: "la_eig la [[1]] None = Inr ([1], [[1]])"
  shows "modes_system_undamped la [[4]] [[4]] = Inr ([1], [[1]], [[1 / 2]], [[1 / 2]]) \<and>
         matmul [[1 / 2]] [[1 / 2 :: complex]] = Inr [[1 / 4]] \<and>
         matmul [[1 / 2]] [[1 / 2 :: complex]] \<noteq> Inr (eye 1 1)"
proof -
  have w: "matmul [[1 / 2]] [[4 :: complex]] = Inr [[2]]"
    "matmul [[2]] (mat_T [[1 / 2 :: complex]]) = Inr [[1]]"
    by (simp_all add: matmul_def mat_T_def dot_def upt_rec)
  have e: "eigen la [[1]] None = Inr ([1], [[1]])"
    using eig by (simp add: eigen_unfold eigen_idx_def argsort_def take_cols_def)
  have s: "matmul [[1 / 2]] [[1 :: complex]] = Inr [[1 / 2]]"
    "matmul (mat_T [[1 :: complex]]) [[1 / 2]] = Inr [[1 / 2]]"
    by (simp_all add: matmul_def mat_T_def dot_def upt_rec)
  have run: "modes_system_undamped la [[4]] [[4]] = Inr ([1], [[1]], [[1 / 2]], [[1 / 2]])"
    using chol inv w e s by (simp add: modes_system_undamped_def)
  have p: "matmul [[1 / 2]] [[1 / 2 :: complex]] = Inr [[1 / 4]]"
    by (simp add: matmul_def mat_T_def dot_def upt_rec)
  show ?thesis using run p by (simp add: eye_def upt_rec)
qed

theorem modes_sinv_not_inverse_witness:
  "modes_system_undamped la_diag [[4]] [[4]] = Inr ([1], [[1]], [[1 / 2]], [[1 / 2]])"
proof -
  have chol: "la_cholesky la_diag [[4]] = Inr [[2]]"
    by (simp add: diag_defs upt_rec)
  have inv: "la_inv la_diag [[2]] = Inr [[1 / 2]]"
    by (simp add: diag_defs upt_rec)
  have eig: "la_eig la_diag [[1]] None = Inr ([1], [[1]])"
    by (simp add: diag_defs eye_def upt_rec)
  show ?thesis
    using modes_sinv_not_inverse [OF chol inv eig] by simp
qed

text \<open>
  Claim C2.  The factor is computed by \<^verbatim>\<open>la.cholesky(M)\<close>, which returns the upper
  factor \<open>U\<close> with \<open>M = U\<^sup>T \<cdot> U\<close>, while the whitening \<open>Linv \<cdot> K \<cdot> Linv\<^sup>T\<close> is the one of
  the lower factor.  For \<open>M = K = [[4, 2], [2, 2]]\<close> the factor is \<open>U = [[2, 1], [0, 1]]\<close>:
  \<open>U\<^sup>T \<cdot> U\<close> is \<open>M\<close>, but \<open>U \<cdot> U\<^sup>T\<close> is \<open>[[5, 1], [1, 1]]\<close>.  The matrix handed to the
  eigenvalue sorter is \<open>[[1/2, 0], [0, 2]]\<close> and the eigenvalues returned are \<open>1/2\<close> and \<open>2\<close>,
  where the whitening with the lower factor gives the identity matrix and the eigenvalues
  \<open>1\<close> and \<open>1\<close> of the pair \<open>(K, M)\<close>.
\<close>

theorem modes_upper_cholesky_factor:
  assumes chol: "la_cholesky la [[4, 2], [2, 2]] = Inr [[2, 1], [0, 1]]"
    and inv: "la_inv la [[2, 1], [0, 1]] = Inr [[1 / 2, - 1 / 2], [0, 1]]"
    and eig: "la_eig la [[1 / 2, 0], [0, 2]] None = Inr ([1 / 2, 2], [[1, 0], [0, 1]])"
  shows "modes_system_undamped la [[4, 2], [2, 2]] [[4, 2], [2, 2]] =
           Inr ([1 / 2, 2], [[1, 0], [0, 1]],
                [[1 / 2, - 1 / 2], [0, 1]], [[1 / 2, - 1 / 2], [0, 1]]) \<and>
         matmul (mat_T [[2, 1], [0, 1]]) [[2, 1], [0, 1 :: complex]] = Inr [[4, 2], [2, 2]] \<and>
         matmul [[2, 1], [0, 1]] (mat_T [[2, 1], [0, 1 :: complex]]) = Inr [[5, 1], [1, 1]]"
proof -
  have w: "matmul [[1 / 2, - 1 / 2], [0, 1]] [[4, 2], [2, 2 :: complex]] = Inr [[1, 0], [2, 2]]"
    "matmul [[1, 0], [2, 2]] (mat_T [[1 / 2, - 1 / 2], [0, 1 :: complex]]) = Inr [[1 / 2, 0], [0, 2]]"
    by (simp_all add: matmul_def mat_T_def dot_def upt_rec)
  have e: "eigen la [[1 / 2, 0], [0, 2]] None = Inr ([1 / 2, 2], [[1, 0], [0, 1]])"
    using eig by (simp add: eigen_unfold eigen_idx_def argsort_def take_cols_def upt_rec)
  have s: "matmul [[1 / 2, - 1 / 2], [0, 1]] [[1, 0], [0, 1 :: complex]] = Inr [[1 / 2, - 1 / 2], [0, 1]]"
    "matmul (mat_T [[1, 0], [0, 1 :: complex]]) [[1 / 2, - 1 / 2], [0, 1]] = Inr [[1 / 2, - 1 / 2], [0, 1]]"
    by (simp_all add: matmul_def mat_T_def dot_def upt_rec)
  have run: "modes_system_undamped la [[4, 2], [2, 2]] [[4, 2], [2, 2]] =
           Inr ([1 / 2, 2], [[1, 0], [0, 1]],
                [[1 / 2, - 1 / 2], [0, 1]], [[1 / 2, - 1 / 2], [0, 1]])"
    using chol inv w e s by (simp add: modes_system_undamped_def)
  have f: "matmul (mat_T [[2, 1], [0, 1]]) [[2, 1], [0, 1 :: complex]] = Inr [[4, 2], [2, 2]]"
    "matmul [[2, 1], [0, 1]] (mat_T [[2, 1], [0, 1 :: complex]]) = Inr [[5, 1], [1, 1]]"
    by (simp_all add: matmul_def mat_T_def dot_def upt_rec)
  show ?thesis using run f by simp
qed

theorem modes_upper_cholesky_factor_witness:
  "modes_system_undamped la_upper [[4, 2], [2, 2]] [[4, 2], [2, 2]] =
     Inr ([1 / 2, 2], [[1, 0], [0, 1]],
          [[1 / 2, - 1 / 2], [0, 1]], [[1 / 2, - 1 / 2], [0, 1]])"
proof -
  have chol: "la_cholesky la_upper [[4, 2], [2, 2]] = Inr [[2, 1], [0, 1]]"
    by (simp add: la_upper_def)
  have inv: "la_inv la_upper [[2, 1], [0, 1]] = Inr [[1 / 2, - 1 / 2], [0, 1]]"
    by (simp add: la_upper_def)
  have eig: "la_eig la_upper [[1 / 2, 0], [0, 2]] None = Inr ([1 / 2, 2], [[1, 0], [0, 1]])"
    by (simp add: la_upper_def diag_defs eye_def upt_rec)
  show ?thesis
    using modes_upper_cholesky_factor [OF chol inv eig] by simp
qed

section \<open>The free response\<close>

lemma py_int_nonneg: "0 \<le> x \<Longrightarrow> py_int x = \<lfloor>x\<rfloor>"
  by (simp add: py_int_def)

lemma linspace_length:
  assumes "linspace a b num = Inr t"
  shows "int (length t) = num"
  using assms by (auto simp: linspace_def split: if_splits)


text \<open>
  Claim C10.  For every end time strictly between 0 and 0.008 the call does not return a
  trajectory: \<^verbatim>\<open>int(250 * max_time)\<close> is 0 or 1, the time grid has fewer than two
  samples, and \<^verbatim>\<open>t[1]\<close> raises IndexError, whatever the other arguments are.
\<close>

theorem response_short_horizon_fails:
  assumes "0 < max_time" and "max_time < 8 / 1000"
  shows "response_system_undamped la M K x0 v0 max_time = Inl IndexError"
proof -
  have pos: "0 \<le> 250 * max_time" using assms(1) by simp
  have lt: "250 * max_time < 2" using assms(2) by simp
  have "\<lfloor>250 * max_time\<rfloor> < 2" using lt by (simp add: floor_less_iff)
  moreover have "0 \<le> \<lfloor>250 * max_time\<rfloor>" using pos by simp
  ultimately have "\<lfloor>250 * max_time\<rfloor> = 0 \<or> \<lfloor>250 * max_time\<rfloor> = 1" by arith
  then have "py_int (250 * max_time) = 0 \<or> py_int (250 * max_time) = 1"
    using pos by (simp add: py_int_nonneg)
  then have "linspace 0 max_time (py_int (250 * max_time)) = Inr [] \<or>
      linspace 0 max_time (py_int (250 * max_time)) = Inr [0]"
    by (auto simp: linspace_def)
  then show ?thesis
    by (auto simp: response_system_undamped_def index_def)
qed

theorem response_short_horizon_fails_witness:
  "response_system_undamped la_diag [[1]] [[0]] [1] [2] (1 / 250) = Inl IndexError"
  using response_short_horizon_fails [of "1 / 250" la_diag "[[1]]" "[[0]]" "[1]" "[2]"]
  by simp


subsection \<open>Columns, shapes and the loop\<close>

lemma set_col_rows:
  assumes "\<forall>row\<in>set X. j < length row" and "length v = length X"
  shows "set_col X j v = Inr (map2 (\<lambda>row x. row[j := x]) X v)"
  using assms by (simp add: set_col_def list_all_iff)

lemma written_col:
  assumes "\<forall>row\<in>set X. j < length row" and "length v = length X"
  shows "map (\<lambda>row. row ! j) (map2 (\<lambda>row x. row[j := x]) X v) = v"
proof (rule nth_equalityI)
  show "length (map (\<lambda>row. row ! j) (map2 (\<lambda>row x. row[j := x]) X v)) = length v"
    using assms(2) by simp
next
  fix i
  assume "i < length (map (\<lambda>row. row ! j) (map2 (\<lambda>row x. row[j := x]) X v))"
  then have i: "i < length X" "i < length v" using assms(2) by simp_all
  then have "j < length (X ! i)" using assms(1) by simp
  then show "map (\<lambda>row. row ! j) (map2 (\<lambda>row x. row[j := x]) X v) ! i = v ! i"
    using i by simp
qed

lemma other_col:
  assumes "k \<noteq> j" and "length v = length X"
  shows "map (\<lambda>row. row ! k) (map2 (\<lambda>row x. row[j := x]) X v) = map (\<lambda>row. row ! k) X"
proof (rule nth_equalityI)
  show "length (map (\<lambda>row. row ! k) (map2 (\<lambda>row x. row[j := x]) X v))
      = length (map (\<lambda>row. row ! k) X)"
    using assms(2) by simp
next
  fix i
  assume "i < length (map (\<lambda>row. row ! k) (map2 (\<lambda>row x. row[j := x]) X v))"
  then have i: "i < length X" "i < length v" using assms(2) by simp_all
  then show "map (\<lambda>row. row ! k) (map2 (\<lambda>row x. row[j := x]) X v) ! i
      = map (\<lambda>row. row ! k) X ! i"
    using assms(1) by simp
qed

lemma set_col_shape:
  assumes "set_col X j v = Inr X'"
  shows "length X' = length X \<and>
         ((\<forall>row\<in>set X. length row = c) \<longrightarrow> (\<forall>row\<in>set X'. length row = c))"
proof (intro conjI impI)
  from assms have X':
    "X' = map2 (\<lambda>row x. row[j := x]) X v \<and> length v = length X \<or>
     X' = map (\<lambda>row. row[j := hd v]) X"
    by (auto simp: set_col_def split: if_splits)
  then show "length X' = length X" by auto
  assume c: "\<forall>row\<in>set X. length row = c"
  show "\<forall>row\<in>set X'. length row = c"
  proof
    fix row assume "row \<in> set X'"
    with X' consider x y where "(x, y) \<in> set (zip X v)" "row = x[j := y]"
      | x where "x \<in> set X" "row = x[j := hd v]"
      by auto
    then show "length row = c"
    proof cases
      case 1
      then have "x \<in> set X" by (auto dest: set_zip_leftD)
      with c 1 show ?thesis by simp
    next
      case 2
      with c show ?thesis by simp
    qed
  qed
qed

lemma propagate_shape:
  assumes "propagate Ad js X = Inr X'"
  shows "length X' = length X \<and>
         ((\<forall>row\<in>set X. length row = c) \<longrightarrow> (\<forall>row\<in>set X'. length row = c))"
  using assms
proof (induction js arbitrary: X)
  case Nil
  then show ?case by simp
next
  case (Cons j js)
  from Cons.prems obtain col v X1 where
    "set_col X (j + 1) v = Inr X1" and rest: "propagate Ad js X1 = Inr X'"
    by (auto split: sum.splits)
  from set_col_shape [OF this(1), of c] Cons.IH [OF rest]
  show ?case by auto
qed

lemma get_col_rows:
  assumes "\<forall>row\<in>set X. length row = c" and "k < c"
  shows "get_col X k = Inr (map (\<lambda>row. row ! k) X)"
  using assms by (simp add: get_col_def list_all_iff)

lemma propagate_columns:
  assumes "propagate Ad [a..<b] X = Inr X'"
    and "length Ad = length X"
    and "\<forall>row\<in>set X. length row = c"
    and "\<forall>row\<in>set X. a < length row"
  shows "\<forall>k. map (\<lambda>row. row ! k) X' =
           (if a < k \<and> k \<le> b then (apply_mat Ad ^^ (k - a)) (map (\<lambda>row. row ! a) X)
            else map (\<lambda>row. row ! k) X)"
  using assms
proof (induction "b - a" arbitrary: a X)
  case 0
  then have "[a..<b] = []" by simp
  with "0.prems"(1) have "X' = X" by simp
  moreover have "\<not> (a < k \<and> k \<le> b)" for k using 0 by simp
  ultimately show ?case by auto
next
  case (Suc d)
  then have ab: "a < b" and d: "d = b - Suc a" by simp_all
  let ?c0 = "map (\<lambda>row. row ! a) X"
  let ?v = "apply_mat Ad ?c0"
  have upt: "[a..<b] = a # [Suc a..<b]" using ab by (simp add: upt_rec)
  have gc: "get_col X a = Inr ?c0"
    using Suc.prems(4) by (simp add: get_col_def list_all_iff)
  from Suc.prems(1) obtain X1 where
    mv: "matvec Ad ?c0 = Inr ?v"
    and sc: "set_col X (a + 1) ?v = Inr X1"
    and rest: "propagate Ad [Suc a..<b] X1 = Inr X'"
    unfolding upt by (auto simp: gc matvec_def split: sum.splits if_splits)
  have lv: "length ?v = length X"
    using Suc.prems(2) by (simp add: apply_mat_def)
  from sc have inb: "\<forall>row\<in>set X. a + 1 < length row"
    by (auto simp: set_col_def list_all_iff split: if_splits)
  have X1: "X1 = map2 (\<lambda>row x. row[a + 1 := x]) X ?v"
    using sc set_col_rows [OF inb lv] by simp
  have c1: "map (\<lambda>row. row ! (a + 1)) X1 = ?v"
    unfolding X1 using inb lv by (rule written_col)
  have c2: "map (\<lambda>row. row ! k) X1 = map (\<lambda>row. row ! k) X" if "k \<noteq> a + 1" for k
    unfolding X1 using that lv by (rule other_col)
  have sh: "length X1 = length X" "\<forall>row\<in>set X1. length row = c"
    using set_col_shape [OF sc, of c] Suc.prems(3) by auto
  have ac: "\<forall>row\<in>set X1. Suc a < length row"
  proof
    fix row assume row: "row \<in> set X1"
    then have "X \<noteq> []" using sh(1) by auto
    then obtain r where "r \<in> set X" by (cases X) auto
    then have "Suc a < c" using inb Suc.prems(3) by auto
    then show "Suc a < length row" using sh(2) row by simp
  qed
  have IH: "\<forall>k. map (\<lambda>row. row ! k) X' =
           (if Suc a < k \<and> k \<le> b
            then (apply_mat Ad ^^ (k - Suc a)) (map (\<lambda>row. row ! Suc a) X1)
            else map (\<lambda>row. row ! k) X1)"
    using Suc.hyps(1) [OF d rest] Suc.prems(2) sh ac by simp
  show ?case
  proof
    fix k
    consider "k \<le> a" | "k = Suc a" | "Suc a < k" "k \<le> b" | "b < k" "Suc a < k"
      by arith
    then show "map (\<lambda>row. row ! k) X' =
           (if a < k \<and> k \<le> b then (apply_mat Ad ^^ (k - a)) ?c0
            else map (\<lambda>row. row ! k) X)"
    proof cases
      case 1
      then show ?thesis using IH c2 [of k] by simp
    next
      case 2
      then show ?thesis using IH c1 ab by simp
    next
      case 3
      then have "k - a = Suc (k - Suc a)" by arith
      then have "(apply_mat Ad ^^ (k - a)) ?c0 = (apply_mat Ad ^^ (k - Suc a)) ?v"
        by (simp add: funpow_swap1)
      then show ?thesis using IH c1 3 by simp
    next
      case 4
      then show ?thesis using IH c2 [of k] by simp
    qed
  qed
qed


lemma hstack_rows:
  assumes "hstack a b = Inr m"
  shows "length m = length a \<and> length a = length b \<and> m = map2 (@) a b"
  using assms by (auto simp: hstack_def split: if_splits)

lemma state_matrix_blocks:
  assumes "state_matrix la M K = Inr A"
  shows "\<exists>Mp MK. la_pinv la M = Inr Mp \<and> matmul (mat_neg Mp) K = Inr MK \<and>
           length MK = length M \<and>
           A = map2 (@) (zeros (length M) (length M)) (eye (length M) (length M)) @
               map2 (@) MK (zeros (length M) (length M))"
proof -
  let ?n = "length M"
  from assms obtain top_rows Mp MK bottom_rows where
    t: "hstack (zeros ?n ?n) (eye ?n ?n) = Inr top_rows"
    and p: "la_pinv la M = Inr Mp"
    and m: "matmul (mat_neg Mp) K = Inr MK"
    and b: "hstack MK (zeros ?n ?n) = Inr bottom_rows"
    and v: "vstack top_rows bottom_rows = Inr A"
    by (auto simp: state_matrix_def Let_def split: sum.splits)
  have z: "length (zeros ?n ?n :: real matrix) = ?n" by (simp add: zeros_def)
  from v have "A = top_rows @ bottom_rows"
    by (auto simp: vstack_def split: if_splits)
  with hstack_rows [OF t] hstack_rows [OF b] p m z show ?thesis by auto
qed

lemma state_matrix_rows:
  assumes "state_matrix la M K = Inr A"
  shows "length A = 2 * length M"
proof -
  from state_matrix_blocks [OF assms] obtain MK where
    "length MK = length M"
    "A = map2 (@) (zeros (length M) (length M)) (eye (length M) (length M)) @
               map2 (@) MK (zeros (length M) (length M))"
    by blast
  then show ?thesis by (simp add: zeros_def eye_def)
qed

lemma response_steps:
  assumes "response_system_undamped la M K x0 v0 max_time = Inr (t, X)"
  shows "\<exists>A X0 Ad.
           linspace 0 max_time (py_int (250 * max_time)) = Inr t \<and> 2 \<le> length t \<and>
           state_matrix la M K = Inr A \<and>
           set_col (zeros (2 * length M) (length t)) 0 (x0 @ v0) = Inr X0 \<and>
           la_expm la (mat_scale A (t ! 1 - t ! 0)) = Inr Ad \<and>
           propagate Ad [0..<length t - 1] X0 = Inr X"
  using assms
  by (auto simp: response_system_undamped_def index_def Let_def split: sum.splits if_splits)


subsection \<open>When the call returns\<close>

text \<open>
  The call returns a trajectory when the end time is at least 0.008, \<open>K\<close> has the shape
  of \<open>M\<close>, the initial conditions have one entry for each row of \<open>M\<close>, the
  pseudo-inverse has the shape of \<open>M\<close>, and the matrix exponential of a square matrix is
  a matrix of the same shape.
\<close>

lemma propagate_total:
  assumes "length Ad = length X"
    and "\<forall>row\<in>set Ad. length row = length X"
    and "\<forall>row\<in>set X. length row = c"
    and "b < c"
  shows "\<exists>X'. propagate Ad [a..<b] X = Inr X'"
  using assms
proof (induction "b - a" arbitrary: a X)
  case 0
  then have e: "[a..<b] = []" by simp
  show ?case unfolding e by simp
next
  case (Suc d)
  then have ab: "a < b" and d: "d = b - Suc a" by simp_all
  let ?c0 = "map (\<lambda>row. row ! a) X"
  let ?v = "apply_mat Ad ?c0"
  let ?X1 = "map2 (\<lambda>row x. row[a + 1 := x]) X ?v"
  have upt: "[a..<b] = a # [Suc a..<b]" using ab by (simp add: upt_rec)
  have gc: "get_col X a = Inr ?c0"
    using Suc.prems(3,4) ab by (simp add: get_col_def list_all_iff)
  have mv: "matvec Ad ?c0 = Inr ?v"
    using Suc.prems(2) by (simp add: matvec_def list_all_iff)
  have lv: "length ?v = length X"
    using Suc.prems(1) by (simp add: apply_mat_def)
  have inb: "\<forall>row\<in>set X. a + 1 < length row"
    using Suc.prems(3,4) ab by simp
  have sc: "set_col X (a + 1) ?v = Inr ?X1"
    using inb lv by (rule set_col_rows)
  have sh: "length ?X1 = length X" "\<forall>row\<in>set ?X1. length row = c"
    using set_col_shape [OF sc, of c] Suc.prems(3) by auto
  have "\<exists>X'. propagate Ad [Suc a..<b] ?X1 = Inr X'"
    using Suc.hyps(1) [OF d, of ?X1] Suc.prems(1,2,4) sh by simp
  then show ?case
    unfolding upt using gc mv sc by simp
qed

lemma matmul_shape:
  assumes "length a = r" and "\<forall>row\<in>set a. length row = length b"
    and "\<forall>row\<in>set b. length row = c" and "b = [] \<longrightarrow> c = 0"
  shows "\<exists>m. matmul a b = Inr m \<and> length m = r \<and> (\<forall>row\<in>set m. length row = c)"
proof -
  have "length (mat_T b) = c"
    using assms(3,4) by (cases b) (simp_all add: mat_T_def)
  then show ?thesis
    using assms(1,2) by (simp add: matmul_def list_all_iff)
qed

lemma state_matrix_total:
  assumes K: "length K = length M" "\<forall>row\<in>set K. length row = length M"
    and pinv: "la_pinv la M = Inr Mp" "length Mp = length M"
      "\<forall>row\<in>set Mp. length row = length M"
  shows "\<exists>A. state_matrix la M K = Inr A \<and> length A = 2 * length M \<and>
           (\<forall>row\<in>set A. length row = 2 * length M)"
proof -
  let ?n = "length M"
  let ?Z = "zeros ?n ?n :: real matrix"
  let ?I = "eye ?n ?n :: real matrix"
  have Z: "length ?Z = ?n" "\<forall>row\<in>set ?Z. length row = ?n"
    by (simp_all add: zeros_def)
  have I: "length ?I = ?n" "\<forall>row\<in>set ?I. length row = ?n"
    by (auto simp: eye_def)
  have top: "hstack ?Z ?I = Inr (map2 (@) ?Z ?I)"
    using Z(1) I(1) by (simp add: hstack_def)
  have neg: "length (mat_neg Mp) = ?n" "\<forall>row\<in>set (mat_neg Mp). length row = length K"
    using pinv(2,3) K(1) by (auto simp: mat_neg_def)
  have "K = [] \<longrightarrow> ?n = 0" using K(1) by auto
  from matmul_shape [OF neg K(2) this] obtain MK where
    MK: "matmul (mat_neg Mp) K = Inr MK" "length MK = ?n" "\<forall>row\<in>set MK. length row = ?n"
    by blast
  have bottom: "hstack MK ?Z = Inr (map2 (@) MK ?Z)"
    using MK(2) Z(1) by (simp add: hstack_def)
  have rt: "\<forall>row\<in>set (map2 (@) ?Z ?I). length row = 2 * ?n"
    using Z(2) I(2) by (fastforce dest: set_zip_leftD set_zip_rightD)
  have rb: "\<forall>row\<in>set (map2 (@) MK ?Z). length row = 2 * ?n"
    using Z(2) MK(3) by (fastforce dest: set_zip_leftD set_zip_rightD)
  have v: "vstack (map2 (@) ?Z ?I) (map2 (@) MK ?Z) = Inr (map2 (@) ?Z ?I @ map2 (@) MK ?Z)"
    using rt rb by (simp add: vstack_def list_all_iff)
  have "state_matrix la M K = Inr (map2 (@) ?Z ?I @ map2 (@) MK ?Z)"
    using top pinv(1) MK(1) bottom v by (simp add: state_matrix_def Let_def)
  moreover have "length (map2 (@) ?Z ?I @ map2 (@) MK ?Z) = 2 * ?n"
    using Z(1) I(1) MK(2) by simp
  ultimately show ?thesis using rt rb by auto
qed

lemma response_returns:
  assumes mt: "8 / 1000 \<le> max_time"
    and K: "length K = length M" "\<forall>row\<in>set K. length row = length M"
    and pinv: "la_pinv la M = Inr Mp" "length Mp = length M"
      "\<forall>row\<in>set Mp. length row = length M"
    and expm: "\<And>A. length A = 2 * length M \<Longrightarrow> \<forall>row\<in>set A. length row = 2 * length M \<Longrightarrow>
      \<exists>Ad. la_expm la A = Inr Ad \<and> length Ad = 2 * length M \<and>
        (\<forall>row\<in>set Ad. length row = 2 * length M)"
    and x0: "length x0 = length M" and v0: "length v0 = length M"
  shows "\<exists>t X. response_system_undamped la M K x0 v0 max_time = Inr (t, X)"
proof -
  let ?n = "length M"
  have "2 \<le> 250 * max_time" using mt by simp
  then have num: "2 \<le> py_int (250 * max_time)"
    by (simp add: py_int_def le_floor_iff)
  let ?num = "py_int (250 * max_time)"
  obtain t where grid: "linspace 0 max_time ?num = Inr t"
    using num by (simp add: linspace_def)
  have T: "int (length t) = ?num" using grid by (rule linspace_length)
  then have two: "2 \<le> length t" using num by simp
  have i1: "index t 1 = Inr (t ! 1)" and i0: "index t 0 = Inr (t ! 0)"
    using two by (auto simp: index_def)
  from state_matrix_total [OF K pinv] obtain A where
    A: "state_matrix la M K = Inr A" "length A = 2 * ?n" "\<forall>row\<in>set A. length row = 2 * ?n"
    by blast
  let ?Z = "zeros (2 * ?n) (length t) :: real matrix"
  let ?X0 = "map2 (\<lambda>row x. row[0 := x]) ?Z (x0 @ v0)"
  have z: "length ?Z = 2 * ?n" "\<forall>row\<in>set ?Z. length row = length t"
    by (simp_all add: zeros_def)
  have ne: "t \<noteq> []" using two by auto
  have z0: "\<forall>row\<in>set ?Z. 0 < length row" using z(2) ne by simp
  have lv: "length (x0 @ v0) = length ?Z" using x0 v0 z(1) by simp
  have init: "set_col ?Z 0 (x0 @ v0) = Inr ?X0"
    using z0 lv by (rule set_col_rows)
  have sh0: "length ?X0 = 2 * ?n" "\<forall>row\<in>set ?X0. length row = length t"
    using set_col_shape [OF init, of "length t"] z by auto
  let ?B = "mat_scale A (t ! 1 - t ! 0)"
  have "length ?B = 2 * ?n" "\<forall>row\<in>set ?B. length row = 2 * ?n"
    using A(2,3) by (auto simp: mat_scale_def)
  from expm [OF this] obtain Ad where
    Ad: "la_expm la ?B = Inr Ad" "length Ad = 2 * ?n" "\<forall>row\<in>set Ad. length row = 2 * ?n"
    by blast
  have "\<exists>X. propagate Ad [0..<length t - 1] ?X0 = Inr X"
  proof (rule propagate_total)
    show "length Ad = length ?X0" using Ad(2) sh0(1) by simp
    show "\<forall>row\<in>set Ad. length row = length ?X0" using Ad(3) sh0(1) by simp
    show "\<forall>row\<in>set ?X0. length row = length t" by (rule sh0(2))
    show "length t - 1 < length t" using two by simp
  qed
  then obtain X where loop: "propagate Ad [0..<length t - 1] ?X0 = Inr X" by blast
  have "response_system_undamped la M K x0 v0 max_time = Inr (t, X)"
    using grid i1 i0 A(1) init Ad(1) loop
    by (simp add: response_system_undamped_def)
  then show ?thesis by blast
qed


lemma response_example_run:
  "response_system_undamped la_diag [[1]] [[0]] [1] [2] (2 / 125) =
     Inr ([0, 2 / 375, 4 / 375, 2 / 125],
          [[1, 379 / 375, 383 / 375, 129 / 125], [2, 2, 2, 2]])"
  by (simp add: response_system_undamped_def state_matrix_def array_defs diag_defs
      upt_rec eval_nat_numeral)

lemma la_diag_expm_rows:
  assumes "la_expm la_diag A = Inr Ad"
  shows "length Ad = length A"
  using assms by (auto simp: la_diag_def mat_add_def eye_def split: if_splits)


subsection \<open>The time grid\<close>




subsection \<open>The trajectory\<close>

text \<open>
  Claim C6.  Whenever the call returns for initial conditions that together have one
  entry for each row of the trajectory, the state matrix is made of the blocks
  \<open>[[0, I], [(- pinv M) \<cdot> K, 0]]\<close>, the transition matrix \<open>Ad\<close> is the one matrix
  exponential of the state matrix times the step \<open>t[1] - t[0]\<close>, the first column of the
  trajectory is \<open>x0\<close> followed by \<open>v0\<close>, and column \<open>k\<close> is \<open>Ad\<close> applied \<open>k\<close> times to it.
  (The matrix exponential of the library returns a matrix with as many rows as its
  argument.)
\<close>

theorem response_trajectory:
  assumes run: "response_system_undamped la M K x0 v0 max_time = Inr (t, X)"
    and len: "length x0 + length v0 = 2 * length M"
    and expm: "\<And>A Ad. la_expm la A = Inr Ad \<Longrightarrow> length Ad = length A"
  shows "\<exists>Mp MK A Ad.
           la_pinv la M = Inr Mp \<and> matmul (mat_neg Mp) K = Inr MK \<and>
           A = map2 (@) (zeros (length M) (length M)) (eye (length M) (length M)) @
               map2 (@) MK (zeros (length M) (length M)) \<and>
           la_expm la (mat_scale A (t ! 1 - t ! 0)) = Inr Ad \<and>
           get_col X 0 = Inr (x0 @ v0) \<and>
           (\<forall>k<length t. get_col X k = Inr ((apply_mat Ad ^^ k) (x0 @ v0)))"
proof -
  let ?T = "length t"
  let ?Z = "zeros (2 * length M) ?T :: real matrix"
  from response_steps [OF run] obtain A X0 Ad where
    two: "2 \<le> ?T"
    and sm: "state_matrix la M K = Inr A"
    and init: "set_col ?Z 0 (x0 @ v0) = Inr X0"
    and ex: "la_expm la (mat_scale A (t ! 1 - t ! 0)) = Inr Ad"
    and loop: "propagate Ad [0..<?T - 1] X0 = Inr X"
    by blast
  from state_matrix_blocks [OF sm] obtain Mp MK where
    blocks: "la_pinv la M = Inr Mp" "matmul (mat_neg Mp) K = Inr MK"
      "A = map2 (@) (zeros (length M) (length M)) (eye (length M) (length M)) @
               map2 (@) MK (zeros (length M) (length M))"
    by blast
  have z: "length ?Z = 2 * length M" "\<forall>row\<in>set ?Z. length row = ?T"
    by (simp_all add: zeros_def)
  have ne: "t \<noteq> []" using two by auto
  have z0: "\<forall>row\<in>set ?Z. 0 < length row" using z(2) ne by simp
  have lv: "length (x0 @ v0) = length ?Z" using len z(1) by simp
  have X0: "X0 = map2 (\<lambda>row x. row[0 := x]) ?Z (x0 @ v0)"
    using init set_col_rows [OF z0 lv] by simp
  have c0: "map (\<lambda>row. row ! 0) X0 = x0 @ v0"
    unfolding X0 using z0 lv by (rule written_col)
  have sh0: "length X0 = 2 * length M" "\<forall>row\<in>set X0. length row = ?T"
    using set_col_shape [OF init, of ?T] z by auto
  have Ad: "length Ad = length X0"
    using expm [OF ex] state_matrix_rows [OF sm] sh0(1) by (simp add: mat_scale_def)
  have r0: "\<forall>row\<in>set X0. 0 < length row" using sh0(2) ne by simp
  have cols: "map (\<lambda>row. row ! k) X =
           (if 0 < k \<and> k \<le> ?T - 1 then (apply_mat Ad ^^ (k - 0)) (map (\<lambda>row. row ! 0) X0)
            else map (\<lambda>row. row ! k) X0)" for k
    using propagate_columns [OF loop Ad sh0(2) r0] by blast
  have sh: "\<forall>row\<in>set X. length row = ?T"
    using propagate_shape [OF loop, of ?T] sh0 by auto
  have traj: "get_col X k = Inr ((apply_mat Ad ^^ k) (x0 @ v0))" if "k < ?T" for k
  proof -
    have "get_col X k = Inr (map (\<lambda>row. row ! k) X)"
      using sh that by (rule get_col_rows)
    also have "map (\<lambda>row. row ! k) X = (apply_mat Ad ^^ k) (x0 @ v0)"
      using cols [of k] c0 that by (cases "k = 0") auto
    finally show ?thesis .
  qed
  have "get_col X 0 = Inr (x0 @ v0)" using traj [of 0] ne by simp
  with blocks ex traj show ?thesis by blast
qed



theorem response_trajectory_witness:
  "response_system_undamped la_diag [[1]] [[0]] [1] [2] (2 / 125) =
     Inr ([0, 2 / 375, 4 / 375, 2 / 125],
          [[1, 379 / 375, 383 / 375, 129 / 125], [2, 2, 2, 2]]) \<and>
   la_expm la_diag (mat_scale [[0, 1], [0, 0]] (2 / 375)) = Inr [[1, 2 / 375], [0, 1]] \<and>
   get_col [[1, 379 / 375, 383 / 375, 129 / 125], [2, 2, 2, 2]] 3 =
     Inr ((apply_mat [[1, 2 / 375], [0, 1]] ^^ 3) [1, 2 :: real])"
proof -
  have len: "length [1 :: real] + length [2 :: real] = 2 * length [[1 :: real]]" by simp
  from response_trajectory [OF response_example_run len la_diag_expm_rows]
  obtain Mp MK A Ad where
    p: "la_pinv la_diag [[1]] = Inr Mp"
    and m: "matmul (mat_neg Mp) [[0]] = Inr MK"
    and A: "A = map2 (@) (zeros 1 1) (eye 1 1) @ map2 (@) MK (zeros 1 1)"
    and e: "la_expm la_diag (mat_scale A ([0, 2 / 375, 4 / 375, 2 / 125] ! 1 - [0, 2 / 375, 4 / 375, 2 / 125] ! 0)) = Inr Ad"
    and c: "\<forall>k<4. get_col [[1, 379 / 375, 383 / 375, 129 / 125], [2, 2, 2, 2]] k =
        Inr ((apply_mat Ad ^^ k) ([1] @ [2]))"
    by auto
  from p have Mp: "Mp = [[1]]" by (simp add: diag_defs upt_rec)
  from m have MK: "MK = [[0]]" by (simp add: Mp array_defs upt_rec)
  have A': "A = [[0, 1], [0, 0]]" by (simp add: A MK zeros_def eye_def upt_rec)
  from e have e': "la_expm la_diag (mat_scale [[0, 1], [0, 0]] (2 / 375)) = Inr Ad"
    by (simp add: A')
  then have Ad: "Ad = [[1, 2 / 375], [0, 1]]"
    by (simp add: array_defs diag_defs upt_rec eval_nat_numeral)
  show ?thesis
    using response_example_run e' c [rule_format, of 3] by (simp add: Ad)
qed

end
